theory Spec2Isabelle
  imports Complex_Main
begin

section \<open>Data model\<close>

text \<open>
  The analyzer reads a variant file through a reader library and turns every variant
  into one row of a table. The reader's objects are taken the way \<open>parse_vcf\<close> reads
  them: \<open>FORMAT\<close> is the list of format field names, \<open>genotypes[0]\<close> is a mapping from
  a field name to a sequence of integers, \<open>INFO\<close> is a dictionary whose \<open>AF\<close> entry
  is a sequence of numbers, \<open>ALT\<close> is a list of strings and \<open>QUAL\<close> may be \<open>None\<close>.
  Python integers are \<open>int\<close>; Python floats are idealised as \<open>real\<close>, and a column
  value that may be missing (\<open>None\<close>/NaN) is an \<open>option\<close>.
\<close>

datatype exn =
    IndexError
  | KeyError string
  | ReaderError string

text \<open>\<open>str(e)\<close> of an exception; a failure of the reader carries its own message.\<close>

fun str_exn :: "exn \<Rightarrow> string" where
  "str_exn IndexError = ''list index out of range''"
| "str_exn (KeyError k) = [CHR 0x27] @ k @ [CHR 0x27]"
| "str_exn (ReaderError m) = m"

type_synonym 'v dict = "(string \<times> 'v) list"

record variant =
  v_CHROM :: string
  v_POS :: int
  v_REF :: string
  v_ALT :: "string list"
  var_type :: string
  FORMAT :: "string list"
  genotypes :: "int list dict list"
  INFO :: "real list dict"
  v_QUAL :: "real option"

text \<open>One row of the table: the keys of the dictionary that \<open>parse_vcf\<close> appends.\<close>

record row =
  CHROM :: string
  POS :: int
  REF :: string
  ALT :: string
  TYPE' :: string
  AF :: "real list option"
  VAF :: "real option"
  DP :: "int option"
  Mutation :: string
  QUAL :: "real option"

type_synonym table = "row list"

text \<open>
  What the reader gives for a path: opening may raise; iteration yields variants and
  may raise at any item, after which nothing more is read.
\<close>

type_synonym vcf_iter = "(exn + variant) list"

section \<open>Python primitives used by the extractor\<close>

text \<open>\<open>xs[i]\<close> for a non-negative literal index: out of range raises.\<close>

definition subscript :: "'a list \<Rightarrow> nat \<Rightarrow> exn + 'a" where
  "subscript xs i = (if i < length xs then Inr (xs ! i) else Inl IndexError)"

text \<open>\<open>d[k]\<close> on a mapping: a missing key raises \<open>KeyError\<close>.\<close>

definition getitem :: "'v dict \<Rightarrow> string \<Rightarrow> exn + 'v" where
  "getitem d k = (case map_of d k of None \<Rightarrow> Inl (KeyError k) | Some v \<Rightarrow> Inr v)"

definition bind :: "exn + 'a \<Rightarrow> ('a \<Rightarrow> exn + 'b) \<Rightarrow> exn + 'b" where
  "bind m f = (case m of Inl e \<Rightarrow> Inl e | Inr x \<Rightarrow> f x)"

text \<open>\<open>','.join(xs)\<close>.\<close>

fun join_comma :: "string list \<Rightarrow> string" where
  "join_comma [] = []"
| "join_comma [x] = x"
| "join_comma (x # y # ys) = x @ '','' @ join_comma (y # ys)"

text \<open>The arrow of the mutation label (U+2192), as its UTF-8 bytes.\<close>

definition arrow :: string where
  "arrow = [CHR 0xE2, CHR 0x86, CHR 0x92]"

section \<open>The record extractor\<close>

text \<open>
  The first part of the loop body: allele counts, total depth and variant allele
  frequency. The result is \<open>(vaf, total_depth)\<close>.
\<close>

definition depth_and_vaf :: "variant \<Rightarrow> exn + (real \<times> int)" where
  "depth_and_vaf v =
     (if ''AD'' \<in> set (FORMAT v) then
        bind (subscript (genotypes v) 0) (\<lambda>sample.
        bind (getitem sample ''AD'') (\<lambda>ad.
        bind (subscript ad 0) (\<lambda>ref_count.
        bind (subscript ad 1) (\<lambda>alt_count.
          let total_depth = ref_count + alt_count;
              vaf = (if total_depth > 0 then real_of_int alt_count / real_of_int total_depth else 0)
          in Inr (vaf, total_depth)))))
      else
        (case map_of (INFO v) ''AF'' of
           Some af \<Rightarrow> bind (subscript af 0) (\<lambda>vaf. Inr (vaf, 0))
         | None \<Rightarrow> Inr (0, 0)))"

text \<open>The whole loop body: the row appended for one variant, or the exception raised.\<close>

definition extract_row :: "variant \<Rightarrow> exn + row" where
  "extract_row v =
     bind (depth_and_vaf v) (\<lambda>(vaf, total_depth).
     bind (subscript (v_ALT v) 0) (\<lambda>alt0.
       Inr \<lparr> CHROM = v_CHROM v,
             POS = v_POS v,
             REF = v_REF v,
             ALT = join_comma (v_ALT v),
             TYPE' = var_type v,
             AF = map_of (INFO v) ''AF'',
             VAF = Some vaf,
             DP = Some total_depth,
             Mutation = v_REF v @ arrow @ alt0,
             QUAL = v_QUAL v \<rparr>))"

text \<open>The \<open>for\<close> loop over the reader, with \<open>records\<close> as the accumulator.\<close>

fun collect :: "vcf_iter \<Rightarrow> row list \<Rightarrow> exn + row list" where
  "collect [] records = Inr records"
| "collect (Inl e # rest) records = Inl e"
| "collect (Inr v # rest) records =
     (case extract_row v of
        Inl e \<Rightarrow> Inl e
      | Inr r \<Rightarrow> collect rest (records @ [r]))"

text \<open>
  \<open>parse_vcf\<close>: the argument is what \<open>VCF(vcf_path)\<close> does (raise, or give an
  iterator); the result is the table returned together with the messages shown by
  \<open>st.error\<close>.
\<close>

definition parse_vcf :: "exn + vcf_iter \<Rightarrow> table \<times> string list" where
  "parse_vcf opened =
     (case bind opened (\<lambda>vcf. collect vcf []) of
        Inr records \<Rightarrow> (records, [])
      | Inl e \<Rightarrow> ([], [''VCF parsing error: '' @ str_exn e]))"

section \<open>The mutation frequency calculator\<close>

text \<open>
  \<open>Counter(xs)\<close>: a dictionary from label to number of occurrences, in the order in
  which the labels are first seen.
\<close>

fun counter_add :: "'a \<Rightarrow> ('a \<times> nat) list \<Rightarrow> ('a \<times> nat) list" where
  "counter_add k [] = [(k, 1)]"
| "counter_add k ((k', c) # m) =
     (if k = k' then (k', c + 1) # m else (k', c) # counter_add k m)"

definition Counter :: "'a list \<Rightarrow> ('a \<times> nat) list" where
  "Counter xs = foldl (\<lambda>m k. counter_add k m) [] xs"

text \<open>One line of the frequency table: the index label and its two columns.\<close>

record freq_row =
  label :: string
  Count :: nat
  Frequency :: real

text \<open>
  \<open>calculate_mutation_frequencies\<close>. The final \<open>sort_values('Count', ascending=False)\<close>
  is a sort by descending count; the order it gives to equal counts is the library's
  and is taken here as the stable one.
\<close>

definition calculate_mutation_frequencies :: "table \<Rightarrow> freq_row list" where
  "calculate_mutation_frequencies df =
     (if df = [] then []
      else
        let mutation_counts = Counter (map Mutation df);
            total_mutations = sum_list (map snd mutation_counts);
            freq_df = map (\<lambda>(k, c).
                        \<lparr> label = k, Count = c,
                          Frequency = (real c / real total_mutations) * 100 \<rparr>) mutation_counts
        in sort_key (\<lambda>r. - int (Count r)) freq_df)"

section \<open>The quality summarizer\<close>

text \<open>\<open>column.dropna()\<close>: the defined values of a column, in order.\<close>

definition dropna :: "'a option list \<Rightarrow> 'a list" where
  "dropna col = List.map_filter id col"

text \<open>\<open>np.mean\<close> and \<open>np.median\<close>; of no values they are NaN (\<open>None\<close>).\<close>

definition mean :: "real list \<Rightarrow> real option" where
  "mean xs = (if xs = [] then None else Some (sum_list xs / real (length xs)))"

definition median :: "real list \<Rightarrow> real option" where
  "median xs =
     (if xs = [] then None
      else
        let s = sort xs; n = length s in
        if odd n then Some (s ! (n div 2))
        else Some ((s ! (n div 2 - 1) + s ! (n div 2)) / 2))"

text \<open>\<open>df['QUAL'] >= 30\<close>: a missing score compares false.\<close>

definition qual_ge_30 :: "row \<Rightarrow> bool" where
  "qual_ge_30 r = (case QUAL r of None \<Rightarrow> False | Some q \<Rightarrow> q \<ge> 30)"

datatype metric = MFloat "real option" | MInt nat

definition ngs_quality_metrics :: "table \<Rightarrow> metric dict" where
  "ngs_quality_metrics df =
     (if df \<noteq> [] then
        [(''Mean Depth'', MFloat (mean (map real_of_int (dropna (map DP df))))),
         (''Median VAF'', MFloat (map_option (\<lambda>m. m * 100) (median (dropna (map VAF df))))),
         (''Q30 Variants'', MInt (length (filter qual_ge_30 df)))]
      else [])"

section \<open>The transition/transversion classifier\<close>

definition transitions :: "(string \<times> string) list" where
  "transitions = [(''A'', ''G''), (''G'', ''A''), (''C'', ''T''), (''T'', ''C'')]"

definition transversions :: "(string \<times> string) list" where
  "transversions =
     [(''A'', ''C''), (''A'', ''T''), (''C'', ''A''), (''C'', ''G''),
      (''G'', ''C''), (''G'', ''T''), (''T'', ''A''), (''T'', ''G'')]"

text \<open>
  \<open>s.split(',')\<close> as its first field and the list of the others: the result of
  \<open>split\<close> is never empty, so \<open>[0]\<close> is the first component.
\<close>

fun split_comma :: "string \<Rightarrow> string \<times> string list" where
  "split_comma [] = ([], [])"
| "split_comma (c # cs) =
     (let (f, rest) = split_comma cs
      in if c = CHR '','' then ([], f # rest) else (c # f, rest))"

text \<open>
  The ratio is computed by the language's own float operations: the true division
  \<open>ti/tv\<close> of two integers and \<open>round(x, 2)\<close>, both on binary floats. They are
  parameters of the classifier, \<open>truediv\<close> and \<open>py_round\<close>, over a type \<open>'f\<close> of
  float values, so that nothing is assumed about the way they round.
\<close>

datatype 'f ratio = NA | Ratio 'f

record 'f spectrum =
  Transitions :: nat
  Transversions :: nat
  Ti_Tv_Ratio :: "'f ratio"

text \<open>The loop over the SNP rows, with the counters \<open>(ti, tv)\<close> as state.\<close>

fun count_ti_tv :: "row list \<Rightarrow> nat \<times> nat \<Rightarrow> nat \<times> nat" where
  "count_ti_tv [] (ti, tv) = (ti, tv)"
| "count_ti_tv (r # rs) (ti, tv) =
     (let ref = REF r; alt = fst (split_comma (ALT r)) in
      if (ref, alt) \<in> set transitions then count_ti_tv rs (ti + 1, tv)
      else if (ref, alt) \<in> set transversions then count_ti_tv rs (ti, tv + 1)
      else count_ti_tv rs (ti, tv))"

definition mutation_spectrum ::
  "(nat \<Rightarrow> nat \<Rightarrow> 'f) \<Rightarrow> ('f \<Rightarrow> nat \<Rightarrow> 'f) \<Rightarrow> table \<Rightarrow> 'f spectrum" where
  "mutation_spectrum truediv py_round df =
     (if df = [] \<or> ''snp'' \<notin> set (map TYPE' df) then
        \<lparr> Transitions = 0, Transversions = 0, Ti_Tv_Ratio = NA \<rparr>
      else
        let (ti, tv) = count_ti_tv (filter (\<lambda>r. TYPE' r = ''snp'') df) (0, 0) in
        \<lparr> Transitions = ti, Transversions = tv,
          Ti_Tv_Ratio = (if tv > 0 then Ratio (py_round (truediv ti tv) 2) else NA) \<rparr>)"

section \<open>Auxiliary notions for stating the properties\<close>

text \<open>
  The variants of a file, in file order. When \<open>parse_vcf\<close> returns rows, every item
  read was a variant and the \<open>i\<close>-th row comes from the \<open>i\<close>-th of them.
\<close>

definition variants_of :: "exn + vcf_iter \<Rightarrow> variant list" where
  "variants_of opened =
     (case opened of
        Inl e \<Rightarrow> []
      | Inr vcf \<Rightarrow> List.map_filter (\<lambda>x. case x of Inl e \<Rightarrow> None | Inr v \<Rightarrow> Some v) vcf)"


text \<open>
  Sample variants: one with allele depths, one with a reported frequency only, one
  without an alternate allele, and one with neither allele depths nor a reported
  frequency.
\<close>

definition ex_ad :: variant where
  "ex_ad = \<lparr> v_CHROM = ''chr1'', v_POS = 100, v_REF = ''A'', v_ALT = [''G''],
             var_type = ''snp'', FORMAT = [''GT'', ''AD''],
             genotypes = [[(''AD'', [6, 2])]], INFO = [], v_QUAL = Some 50 \<rparr>"

definition ex_af :: variant where
  "ex_af = \<lparr> v_CHROM = ''chr2'', v_POS = 7, v_REF = ''C'', v_ALT = [''T'', ''G''],
             var_type = ''snp'', FORMAT = [], genotypes = [],
             INFO = [(''AF'', [3 / 2, 1 / 5])], v_QUAL = None \<rparr>"

definition ex_no_alt :: variant where
  "ex_no_alt = \<lparr> v_CHROM = ''chr3'', v_POS = 9, v_REF = ''G'', v_ALT = [],
             var_type = ''unknown'', FORMAT = [], genotypes = [],
             INFO = [], v_QUAL = None \<rparr>"

definition ex_plain :: variant where
  "ex_plain = \<lparr> v_CHROM = ''chr4'', v_POS = 12, v_REF = ''T'', v_ALT = [''C''],
             var_type = ''snp'', FORMAT = [''GT''], genotypes = [[]],
             INFO = [], v_QUAL = Some 10 \<rparr>"

text \<open>The two classes of substitution, as predicates on a row.\<close>

definition is_transition :: "row \<Rightarrow> bool" where
  "is_transition r \<longleftrightarrow> (REF r, fst (split_comma (ALT r))) \<in> set transitions"

definition is_transversion :: "row \<Rightarrow> bool" where
  "is_transversion r \<longleftrightarrow> (REF r, fst (split_comma (ALT r))) \<in> set transversions"

text \<open>
  Sample tables: three transitions and one transversion, and four rows with depths
  10, 20, missing, 30 and quality scores 30, 29.9, missing, 50.
\<close>

definition ex_row :: "string \<Rightarrow> string \<Rightarrow> string \<Rightarrow> row" where
  "ex_row typ ref alt =
     \<lparr> CHROM = ''chr1'', POS = 1, REF = ref, ALT = alt, TYPE' = typ, AF = None,
       VAF = Some 0, DP = Some 0, Mutation = ref @ arrow @ alt, QUAL = None \<rparr>"

definition ex_table :: table where
  "ex_table = [ex_row ''snp'' ''A'' ''G'', ex_row ''snp'' ''A'' ''G'',
               ex_row ''snp'' ''C'' ''T'', ex_row ''snp'' ''A'' ''C'']"

definition ex_quality_table :: table where
  "ex_quality_table =
     [(ex_row ''snp'' ''A'' ''G'') \<lparr> DP := Some 10, QUAL := Some 30 \<rparr>,
      (ex_row ''snp'' ''A'' ''G'') \<lparr> DP := Some 20, QUAL := Some (299 / 10) \<rparr>,
      (ex_row ''snp'' ''C'' ''T'') \<lparr> DP := None, QUAL := None \<rparr>,
      (ex_row ''snp'' ''A'' ''C'') \<lparr> DP := Some 30, QUAL := Some 50 \<rparr>]"

section \<open>Properties of the record extractor\<close>

lemma bind_Inr_iff: "bind m f = Inr y \<longleftrightarrow> (\<exists>x. m = Inr x \<and> f x = Inr y)"
  by (cases m) (simp_all add: bind_def)

lemma subscript_Inr_iff: "subscript xs i = Inr x \<longleftrightarrow> i < length xs \<and> x = xs ! i"
  by (auto simp: subscript_def)

lemma getitem_Inr_iff: "getitem d k = Inr x \<longleftrightarrow> map_of d k = Some x"
  by (simp add: getitem_def split: option.splits)

lemma collect_Inr:
  "collect vcf acc = Inr recs \<Longrightarrow>
     \<exists>vs rs. vcf = map Inr vs \<and> list_all2 (\<lambda>v r. extract_row v = Inr r) vs rs \<and> recs = acc @ rs"
proof (induction vcf acc rule: collect.induct)
  case (1 records)
  then show ?case by simp
next
  case (2 e rest records)
  then show ?case by simp
next
  case (3 v rest records)
  then obtain r where r: "extract_row v = Inr r" and c: "collect rest (records @ [r]) = Inr recs"
    by (auto split: sum.splits)
  from "3.IH" [OF r c] obtain vs rs where
    "rest = map Inr vs" "list_all2 (\<lambda>v r. extract_row v = Inr r) vs rs" "recs = (records @ [r]) @ rs"
    by blast
  with r have "Inr v # rest = map Inr (v # vs) \<and>
      list_all2 (\<lambda>v r. extract_row v = Inr r) (v # vs) (r # rs) \<and> recs = records @ (r # rs)"
    by simp
  then show ?case
    by (intro exI [of _ "v # vs"] exI [of _ "r # rs"])
qed

lemma collect_ok:
  "list_all2 (\<lambda>v r. extract_row v = Inr r) vs rs \<Longrightarrow> collect (map Inr vs) acc = Inr (acc @ rs)"
  by (induction vs rs arbitrary: acc rule: list_all2_induct) simp_all

lemma collect_reader_fails:
  "list_all2 (\<lambda>v r. extract_row v = Inr r) vs rs \<Longrightarrow>
     collect (map Inr vs @ Inl e # rest) acc = Inl e"
  by (induction vs rs arbitrary: acc rule: list_all2_induct) simp_all

lemma collect_row_fails:
  "list_all2 (\<lambda>v r. extract_row v = Inr r) vs rs \<Longrightarrow> extract_row v = Inl e \<Longrightarrow>
     collect (map Inr vs @ Inr v # rest) acc = Inl e"
  by (induction vs rs arbitrary: acc rule: list_all2_induct) simp_all

lemma parse_vcf_rows:
  assumes "i < length (fst (parse_vcf opened))"
  shows "\<exists>vs. opened = Inr (map Inr vs) \<and> length vs = length (fst (parse_vcf opened)) \<and>
           parse_vcf opened = (fst (parse_vcf opened), []) \<and>
           (\<forall>j < length vs. extract_row (vs ! j) = Inr (fst (parse_vcf opened) ! j))"
proof (cases "bind opened (\<lambda>vcf. collect vcf [])")
  case (Inl e)
  with assms show ?thesis by (simp add: parse_vcf_def)
next
  case (Inr recs)
  then obtain vcf where o: "opened = Inr vcf" and c: "collect vcf [] = Inr recs"
    by (auto simp: bind_Inr_iff)
  from collect_Inr [OF c] obtain vs where
    vs: "vcf = map Inr vs" "list_all2 (\<lambda>v r. extract_row v = Inr r) vs recs"
    by auto
  have "fst (parse_vcf opened) = recs" "parse_vcf opened = (recs, [])"
    using Inr by (simp_all add: parse_vcf_def)
  with o vs show ?thesis
    by (auto simp: list_all2_conv_all_nth)
qed

lemma depth_and_vaf_AD:
  assumes "depth_and_vaf v = Inr (x, d)" and "''AD'' \<in> set (FORMAT v)"
  shows "\<exists>sample ad. genotypes v \<noteq> [] \<and> sample = genotypes v ! 0 \<and>
           map_of sample ''AD'' = Some ad \<and> 2 \<le> length ad \<and>
           d = ad ! 0 + ad ! 1 \<and>
           x = (if ad ! 0 + ad ! 1 > 0
                then real_of_int (ad ! 1) / real_of_int (ad ! 0 + ad ! 1) else 0)"
  using assms
  by (auto simp: depth_and_vaf_def bind_Inr_iff subscript_Inr_iff getitem_Inr_iff Let_def)

lemma depth_and_vaf_no_AD:
  assumes "depth_and_vaf v = Inr (x, d)" and "''AD'' \<notin> set (FORMAT v)"
  shows "d = 0 \<and> (case map_of (INFO v) ''AF'' of
                    Some af \<Rightarrow> af \<noteq> [] \<and> x = af ! 0
                  | None \<Rightarrow> x = 0)"
  using assms
  by (auto simp: depth_and_vaf_def bind_Inr_iff subscript_Inr_iff split: option.splits)

lemma extract_row_Inr:
  assumes "extract_row v = Inr r"
  shows "\<exists>x d. depth_and_vaf v = Inr (x, d) \<and> v_ALT v \<noteq> [] \<and>
           r = \<lparr> CHROM = v_CHROM v, POS = v_POS v, REF = v_REF v,
                 ALT = join_comma (v_ALT v), TYPE' = var_type v,
                 AF = map_of (INFO v) ''AF'', VAF = Some x, DP = Some d,
                 Mutation = v_REF v @ arrow @ v_ALT v ! 0, QUAL = v_QUAL v \<rparr>"
  using assms
  by (auto simp: extract_row_def bind_Inr_iff subscript_Inr_iff)

lemma variants_of_all_read: "variants_of (Inr (map Inr vs)) = vs"
  by (induction vs) (simp_all add: variants_of_def map_filter_simps)

lemma parse_vcf_row_of_variant:
  assumes "i < length (fst (parse_vcf opened))"
  shows "length (variants_of opened) = length (fst (parse_vcf opened)) \<and>
         extract_row (variants_of opened ! i) = Inr (fst (parse_vcf opened) ! i)"
proof -
  from parse_vcf_rows [OF assms] obtain vs where
    vs: "opened = Inr (map Inr vs)" "length vs = length (fst (parse_vcf opened))"
      "\<forall>j < length vs. extract_row (vs ! j) = Inr (fst (parse_vcf opened) ! j)"
    by blast
  with assms show ?thesis
    by (simp add: variants_of_all_read)
qed

lemmas extractor_defs =
  parse_vcf_def bind_def extract_row_def depth_and_vaf_def subscript_def getitem_def
  arrow_def Let_def

lemma extract_ex_ad:
  "extract_row ex_ad = Inr \<lparr> CHROM = ''chr1'', POS = 100, REF = ''A'', ALT = ''G'',
      TYPE' = ''snp'', AF = None, VAF = Some (1 / 4), DP = Some 8,
      Mutation = ''A'' @ arrow @ ''G'', QUAL = Some 50 \<rparr>"
  by (simp add: extractor_defs ex_ad_def)

lemma extract_ex_af:
  "extract_row ex_af = Inr \<lparr> CHROM = ''chr2'', POS = 7, REF = ''C'', ALT = ''T,G'',
      TYPE' = ''snp'', AF = Some [3 / 2, 1 / 5], VAF = Some (3 / 2), DP = Some 0,
      Mutation = ''C'' @ arrow @ ''T'', QUAL = None \<rparr>"
  by (simp add: extractor_defs ex_af_def)

lemma extract_ex_plain:
  "extract_row ex_plain = Inr \<lparr> CHROM = ''chr4'', POS = 12, REF = ''T'', ALT = ''C'',
      TYPE' = ''snp'', AF = None, VAF = Some 0, DP = Some 0,
      Mutation = ''T'' @ arrow @ ''C'', QUAL = Some 10 \<rparr>"
  by (simp add: extractor_defs ex_plain_def)

lemma extract_ex_no_alt: "extract_row ex_no_alt = Inl IndexError"
  by (simp add: extractor_defs ex_no_alt_def)




lemma vaf_fraction_bounds:
  fixes a b :: int
  assumes "0 \<le> a" "0 \<le> b" "0 < a + b"
  shows "0 \<le> real_of_int b / real_of_int (a + b) \<and> real_of_int b / real_of_int (a + b) \<le> 1"
  using assms by (simp add: divide_le_eq)

text \<open>
  C1. For every row that \<open>parse_vcf\<close> produces: when \<open>AD\<close> is among the format fields,
  the first sample has two allele depths \<open>ref_count\<close>, \<open>alt_count\<close>, and the row's VAF
  is \<open>alt_count / (ref_count + alt_count)\<close> when the total is positive and \<open>0\<close>
  otherwise (for read counts, which are not negative: \<open>0\<close> exactly when the total
  is \<open>0\<close>); when \<open>AD\<close> is absent, VAF is the first value of INFO \<open>AF\<close> when that is
  present and \<open>0\<close> when it is not.
\<close>

theorem parse_vcf_vaf:
  assumes "i < length (fst (parse_vcf opened))"
  shows "let v = variants_of opened ! i; r = fst (parse_vcf opened) ! i in
            (''AD'' \<in> set (FORMAT v) \<longrightarrow>
               (\<exists>ad. genotypes v \<noteq> [] \<and> map_of (genotypes v ! 0) ''AD'' = Some ad \<and>
                  2 \<le> length ad \<and>
                  VAF r = Some (if ad ! 0 + ad ! 1 > 0
                                then real_of_int (ad ! 1) / real_of_int (ad ! 0 + ad ! 1)
                                else 0))) \<and>
            (''AD'' \<notin> set (FORMAT v) \<longrightarrow>
               (case map_of (INFO v) ''AF'' of
                  Some af \<Rightarrow> af \<noteq> [] \<and> VAF r = Some (af ! 0)
                | None \<Rightarrow> VAF r = Some 0))"
proof -
  let ?v = "variants_of opened ! i" and ?r = "fst (parse_vcf opened) ! i"
  from parse_vcf_row_of_variant [OF assms] have "extract_row ?v = Inr ?r" by simp
  from extract_row_Inr [OF this] obtain x d where
    xd: "depth_and_vaf ?v = Inr (x, d)" and r: "VAF ?r = Some x"
    by auto
  have a: "''AD'' \<in> set (FORMAT ?v) \<longrightarrow>
       (\<exists>ad. genotypes ?v \<noteq> [] \<and> map_of (genotypes ?v ! 0) ''AD'' = Some ad \<and>
          2 \<le> length ad \<and>
          VAF ?r = Some (if ad ! 0 + ad ! 1 > 0
                         then real_of_int (ad ! 1) / real_of_int (ad ! 0 + ad ! 1)
                         else 0))"
  proof
    assume "''AD'' \<in> set (FORMAT ?v)"
    from depth_and_vaf_AD [OF xd this] obtain ad where
      "genotypes ?v \<noteq> []" "map_of (genotypes ?v ! 0) ''AD'' = Some ad" "2 \<le> length ad"
      "x = (if ad ! 0 + ad ! 1 > 0
            then real_of_int (ad ! 1) / real_of_int (ad ! 0 + ad ! 1) else 0)"
      by blast
    with r show "\<exists>ad. genotypes ?v \<noteq> [] \<and> map_of (genotypes ?v ! 0) ''AD'' = Some ad \<and>
          2 \<le> length ad \<and>
          VAF ?r = Some (if ad ! 0 + ad ! 1 > 0
                         then real_of_int (ad ! 1) / real_of_int (ad ! 0 + ad ! 1)
                         else 0)"
      by (intro exI [of _ ad]) simp
  qed
  have b: "''AD'' \<notin> set (FORMAT ?v) \<longrightarrow>
       (case map_of (INFO ?v) ''AF'' of
          Some af \<Rightarrow> af \<noteq> [] \<and> VAF ?r = Some (af ! 0)
        | None \<Rightarrow> VAF ?r = Some 0)"
    using depth_and_vaf_no_AD [OF xd] r by (auto split: option.splits)
  from a b show ?thesis
    unfolding Let_def by blast
qed

theorem parse_vcf_vaf_witness:
  "0 < length (fst (parse_vcf (Inr [Inr ex_ad]))) \<and>
   VAF (fst (parse_vcf (Inr [Inr ex_ad])) ! 0) = Some (1 / 4) \<and>
   0 < length (fst (parse_vcf (Inr [Inr ex_af]))) \<and>
   VAF (fst (parse_vcf (Inr [Inr ex_af])) ! 0) = Some (3 / 2)"
proof -
  have len: "0 < length (fst (parse_vcf (Inr [Inr ex_ad])))"
    by (simp add: parse_vcf_def bind_def extract_ex_ad)
  have len': "0 < length (fst (parse_vcf (Inr [Inr ex_af])))"
    by (simp add: parse_vcf_def bind_def extract_ex_af)
  have v: "variants_of (Inr [Inr ex_ad]) ! 0 = ex_ad" "variants_of (Inr [Inr ex_af]) ! 0 = ex_af"
    using variants_of_all_read [of "[ex_ad]"] variants_of_all_read [of "[ex_af]"] by simp_all
  from parse_vcf_vaf [OF len]
  have "VAF (fst (parse_vcf (Inr [Inr ex_ad])) ! 0) = Some (1 / 4)"
    unfolding Let_def v by (simp add: ex_ad_def)
  moreover from parse_vcf_vaf [OF len']
  have "VAF (fst (parse_vcf (Inr [Inr ex_af])) ! 0) = Some (3 / 2)"
    unfolding Let_def v by (simp add: ex_af_def)
  ultimately show ?thesis using len len' by blast
qed

text \<open>
  C2. A failure anywhere while reading (the file cannot be opened, the reader raises
  at some item, or a variant cannot be turned into a row) gives the empty table, also
  when rows had already been extracted before it, and one message carrying the text of
  the failure; whenever a message is shown the table is empty; and with no failure
  every variant read has its row, none being skipped.
\<close>

theorem parse_vcf_failure:
  "parse_vcf (Inl e) = ([], [''VCF parsing error: '' @ str_exn e]) \<and>
   (snd (parse_vcf opened) \<noteq> [] \<longrightarrow> fst (parse_vcf opened) = []) \<and>
   (list_all2 (\<lambda>v r. extract_row v = Inr r) vs rs \<longrightarrow>
      parse_vcf (Inr (map Inr vs @ Inl e # rest)) = ([], [''VCF parsing error: '' @ str_exn e]) \<and>
      (extract_row v = Inl e \<longrightarrow>
         parse_vcf (Inr (map Inr vs @ Inr v # rest)) =
           ([], [''VCF parsing error: '' @ str_exn e])) \<and>
      parse_vcf (Inr (map Inr vs)) = (rs, []) \<and> length rs = length vs)"
proof -
  have a: "parse_vcf (Inl e) = ([], [''VCF parsing error: '' @ str_exn e])"
    by (simp add: parse_vcf_def bind_def)
  have b: "snd (parse_vcf opened) \<noteq> [] \<longrightarrow> fst (parse_vcf opened) = []"
    by (simp add: parse_vcf_def split: sum.splits)
  have c: "parse_vcf (Inr (map Inr vs @ Inl e # rest)) = ([], [''VCF parsing error: '' @ str_exn e])"
    if "list_all2 (\<lambda>v r. extract_row v = Inr r) vs rs"
    using collect_reader_fails [OF that, of e rest "[]"] by (simp add: parse_vcf_def bind_def)
  have d: "parse_vcf (Inr (map Inr vs @ Inr v # rest)) = ([], [''VCF parsing error: '' @ str_exn e])"
    if "list_all2 (\<lambda>v r. extract_row v = Inr r) vs rs" "extract_row v = Inl e"
    using collect_row_fails [OF that, of rest "[]"] by (simp add: parse_vcf_def bind_def)
  have f: "parse_vcf (Inr (map Inr vs)) = (rs, []) \<and> length rs = length vs"
    if "list_all2 (\<lambda>v r. extract_row v = Inr r) vs rs"
    using collect_ok [OF that, of "[]"] list_all2_lengthD [OF that]
    by (simp add: parse_vcf_def bind_def)
  from a b c d f show ?thesis by blast
qed

theorem parse_vcf_failure_witness:
  "parse_vcf (Inr [Inr ex_ad, Inl (ReaderError ''truncated file''), Inr ex_af]) =
     ([], [''VCF parsing error: truncated file'']) \<and>
   parse_vcf (Inr [Inr ex_ad, Inr ex_no_alt, Inr ex_af]) =
     ([], [''VCF parsing error: list index out of range'']) \<and>
   length (fst (parse_vcf (Inr [Inr ex_ad, Inr ex_af]))) = 2 \<and>
   snd (parse_vcf (Inr [Inr ex_ad, Inr ex_af])) = []"
proof -
  obtain r1 where r1: "extract_row ex_ad = Inr r1" using extract_ex_ad by blast
  obtain r2 where r2: "extract_row ex_af = Inr r2" using extract_ex_af by blast
  have one: "list_all2 (\<lambda>v r. extract_row v = Inr r) [ex_ad] [r1]" using r1 by simp
  have two: "list_all2 (\<lambda>v r. extract_row v = Inr r) [ex_ad, ex_af] [r1, r2]"
    using r1 r2 by simp
  from parse_vcf_failure [of "ReaderError ''truncated file''" "Inl IndexError" "[ex_ad]" "[r1]"
      "[Inr ex_af]" ex_no_alt] one
  have "parse_vcf (Inr [Inr ex_ad, Inl (ReaderError ''truncated file''), Inr ex_af]) =
     ([], [''VCF parsing error: truncated file''])"
    by simp
  moreover
  from parse_vcf_failure [of IndexError "Inl IndexError" "[ex_ad]" "[r1]"
      "[Inr ex_af]" ex_no_alt] one extract_ex_no_alt
  have "parse_vcf (Inr [Inr ex_ad, Inr ex_no_alt, Inr ex_af]) =
     ([], [''VCF parsing error: list index out of range''])"
    by simp
  moreover
  from parse_vcf_failure [of IndexError "Inl IndexError" "[ex_ad, ex_af]" "[r1, r2]"
      "[]" ex_no_alt] two
  have "parse_vcf (Inr [Inr ex_ad, Inr ex_af]) = ([r1, r2], [])"
    by simp
  ultimately show ?thesis by simp
qed

text \<open>
  C3, as the code has it. For every produced row: with allele depths, the VAF is
  exactly \<open>alt_count / D\<close> when the total depth \<open>D\<close> is positive and \<open>0\<close> when it
  is not, and it lies in \<open>[0,1]\<close> provided both counts are not negative; without
  allele depths but with a reported frequency, the VAF is the first reported value,
  and lies in \<open>[0,1]\<close> provided that value does; with neither, the VAF is \<open>0\<close>.
  Nothing clamps a reported frequency: a file that reports \<open>AF = 1.5\<close> gives a row
  with VAF \<open>1.5\<close>.
\<close>

theorem parse_vcf_vaf_range:
  assumes "i < length (fst (parse_vcf opened))"
  shows "let v = variants_of opened ! i; r = fst (parse_vcf opened) ! i in
           \<exists>x. VAF r = Some x \<and>
             (''AD'' \<in> set (FORMAT v) \<longrightarrow>
                (\<exists>ad. map_of (genotypes v ! 0) ''AD'' = Some ad \<and> 2 \<le> length ad \<and>
                   (0 < ad ! 0 + ad ! 1 \<longrightarrow>
                      x = real_of_int (ad ! 1) / real_of_int (ad ! 0 + ad ! 1)) \<and>
                   (\<not> 0 < ad ! 0 + ad ! 1 \<longrightarrow> x = 0) \<and>
                   (0 \<le> ad ! 0 \<and> 0 \<le> ad ! 1 \<longrightarrow> 0 \<le> x \<and> x \<le> 1))) \<and>
             (''AD'' \<notin> set (FORMAT v) \<longrightarrow>
                (case map_of (INFO v) ''AF'' of
                   Some af \<Rightarrow> x = af ! 0 \<and> (0 \<le> af ! 0 \<and> af ! 0 \<le> 1 \<longrightarrow> 0 \<le> x \<and> x \<le> 1)
                 | None \<Rightarrow> x = 0 \<and> 0 \<le> x \<and> x \<le> 1))"
proof -
  let ?v = "variants_of opened ! i" and ?r = "fst (parse_vcf opened) ! i"
  from parse_vcf_row_of_variant [OF assms] have "extract_row ?v = Inr ?r" by simp
  from extract_row_Inr [OF this] obtain x d where
    xd: "depth_and_vaf ?v = Inr (x, d)" and r: "VAF ?r = Some x"
    by auto
  have a: "\<exists>ad. map_of (genotypes ?v ! 0) ''AD'' = Some ad \<and> 2 \<le> length ad \<and>
          (0 < ad ! 0 + ad ! 1 \<longrightarrow> x = real_of_int (ad ! 1) / real_of_int (ad ! 0 + ad ! 1)) \<and>
          (\<not> 0 < ad ! 0 + ad ! 1 \<longrightarrow> x = 0) \<and>
          (0 \<le> ad ! 0 \<and> 0 \<le> ad ! 1 \<longrightarrow> 0 \<le> x \<and> x \<le> 1)"
    if "''AD'' \<in> set (FORMAT ?v)"
  proof -
    from depth_and_vaf_AD [OF xd that] obtain ad where
      ad: "map_of (genotypes ?v ! 0) ''AD'' = Some ad" "2 \<le> length ad"
      and x: "x = (if ad ! 0 + ad ! 1 > 0
            then real_of_int (ad ! 1) / real_of_int (ad ! 0 + ad ! 1) else 0)"
      by blast
    have "0 \<le> x \<and> x \<le> 1" if "0 \<le> ad ! 0" "0 \<le> ad ! 1"
    proof (cases "0 < ad ! 0 + ad ! 1")
      case True
      with x vaf_fraction_bounds [OF that True] show ?thesis by simp
    next
      case False
      with x show ?thesis by simp
    qed
    with ad x show ?thesis
      by (intro exI [of _ ad]) simp
  qed
  have b: "case map_of (INFO ?v) ''AF'' of
             Some af \<Rightarrow> x = af ! 0 \<and> (0 \<le> af ! 0 \<and> af ! 0 \<le> 1 \<longrightarrow> 0 \<le> x \<and> x \<le> 1)
           | None \<Rightarrow> x = 0 \<and> 0 \<le> x \<and> x \<le> 1"
    if "''AD'' \<notin> set (FORMAT ?v)"
    using depth_and_vaf_no_AD [OF xd that] by (auto split: option.splits)
  from r a b show ?thesis
    unfolding Let_def by blast
qed

theorem parse_vcf_vaf_range_witness:
  "0 < length (fst (parse_vcf (Inr [Inr ex_ad]))) \<and>
   VAF (fst (parse_vcf (Inr [Inr ex_ad])) ! 0) = Some (1 / 4) \<and>
   (0 :: real) \<le> 1 / 4 \<and> (1 / 4 :: real) \<le> 1 \<and>
   0 < length (fst (parse_vcf (Inr [Inr ex_plain]))) \<and>
   VAF (fst (parse_vcf (Inr [Inr ex_plain])) ! 0) = Some 0"
proof -
  have len: "0 < length (fst (parse_vcf (Inr [Inr ex_ad])))"
    by (simp add: parse_vcf_def bind_def extract_ex_ad)
  have len': "0 < length (fst (parse_vcf (Inr [Inr ex_plain])))"
    by (simp add: parse_vcf_def bind_def extract_ex_plain)
  have v: "variants_of (Inr [Inr ex_ad]) ! 0 = ex_ad"
    "variants_of (Inr [Inr ex_plain]) ! 0 = ex_plain"
    using variants_of_all_read [of "[ex_ad]"] variants_of_all_read [of "[ex_plain]"]
    by simp_all
  from parse_vcf_vaf_range [OF len]
  have "VAF (fst (parse_vcf (Inr [Inr ex_ad])) ! 0) = Some (1 / 4)"
    unfolding Let_def v by (auto simp: ex_ad_def)
  moreover from parse_vcf_vaf_range [OF len']
  have "VAF (fst (parse_vcf (Inr [Inr ex_plain])) ! 0) = Some 0"
    unfolding Let_def v by (auto simp: ex_plain_def)
  ultimately show ?thesis using len len' by simp
qed

text \<open>The row produced for a variant without allele depths that reports \<open>AF = 1.5, 0.2\<close>.\<close>

theorem parse_vcf_vaf_out_of_range:
  "fst (parse_vcf (Inr [Inr ex_af])) =
     [\<lparr> CHROM = ''chr2'', POS = 7, REF = ''C'', ALT = ''T,G'', TYPE' = ''snp'',
        AF = Some [3 / 2, 1 / 5], VAF = Some (3 / 2), DP = Some 0,
        Mutation = ''C'' @ arrow @ ''T'', QUAL = None \<rparr>] \<and>
   \<not> (3 / 2 :: real) \<le> 1"
  by (simp add: parse_vcf_def bind_def extract_ex_af)




text \<open>
  The extractor never leaves the depth of a row missing: without allele depths it is
  \<open>0\<close>, so such rows enter the mean depth below as zeros.
\<close>

lemma parse_vcf_depth_defined:
  assumes "i < length (fst (parse_vcf opened))"
  shows "\<exists>d. DP (fst (parse_vcf opened) ! i) = Some d \<and>
           (''AD'' \<notin> set (FORMAT (variants_of opened ! i)) \<longrightarrow> d = 0)"
proof -
  let ?v = "variants_of opened ! i" and ?r = "fst (parse_vcf opened) ! i"
  from parse_vcf_row_of_variant [OF assms] have "extract_row ?v = Inr ?r" by simp
  from extract_row_Inr [OF this] obtain x d where
    xd: "depth_and_vaf ?v = Inr (x, d)" and r: "DP ?r = Some d"
    by auto
  from depth_and_vaf_no_AD [OF xd] r show ?thesis by auto
qed

section \<open>Properties of the mutation frequency calculator\<close>

lemma counter_add_sum: "sum_list (map snd (counter_add k m)) = Suc (sum_list (map snd m))"
  by (induction k m rule: counter_add.induct) simp_all

lemma counter_add_keys: "fst ` set (counter_add k m) = insert k (fst ` set m)"
  by (induction k m rule: counter_add.induct) auto

lemma counter_add_distinct:
  "distinct (map fst m) \<Longrightarrow> distinct (map fst (counter_add k m))"
proof (induction k m rule: counter_add.induct)
  case (1 k)
  then show ?case by simp
next
  case (2 k k' c m)
  then show ?case
    using counter_add_keys [of k m] by (auto simp: image_iff)
qed

lemma counter_add_lookup:
  "map_of (counter_add k m) k' =
     (if k' = k then Some (case map_of m k of None \<Rightarrow> 1 | Some c \<Rightarrow> c + 1) else map_of m k')"
  by (induction k m rule: counter_add.induct) auto

lemma counting_sum:
  "sum_list (map snd (foldl (\<lambda>m k. counter_add k m) m xs)) = sum_list (map snd m) + length xs"
  by (induction xs arbitrary: m) (simp_all add: counter_add_sum)

lemma counting_keys:
  "fst ` set (foldl (\<lambda>m k. counter_add k m) m xs) = fst ` set m \<union> set xs"
  by (induction xs arbitrary: m) (simp_all add: counter_add_keys)

lemma counting_distinct:
  "distinct (map fst m) \<Longrightarrow> distinct (map fst (foldl (\<lambda>m k. counter_add k m) m xs))"
  by (induction xs arbitrary: m) (simp_all add: counter_add_distinct)

lemma counting_lookup:
  "map_of (foldl (\<lambda>m k. counter_add k m) m xs) k =
     (if k \<in> set xs
      then Some (count_list xs k + (case map_of m k of None \<Rightarrow> 0 | Some c \<Rightarrow> c))
      else map_of m k)"
proof (induction xs arbitrary: m)
  case Nil
  then show ?case by simp
next
  case (Cons x xs)
  show ?case
    by (simp add: Cons.IH counter_add_lookup split: option.splits)
qed

lemma Counter_sum: "sum_list (map snd (Counter xs)) = length xs"
  by (simp add: Counter_def counting_sum)

lemma Counter_keys: "fst ` set (Counter xs) = set xs"
  by (simp add: Counter_def counting_keys)

lemma Counter_distinct: "distinct (map fst (Counter xs))"
  by (simp add: Counter_def counting_distinct)

lemma Counter_lookup:
  "map_of (Counter xs) k = (if k \<in> set xs then Some (count_list xs k) else None)"
  by (simp add: Counter_def counting_lookup)

lemma Counter_entry:
  assumes "(k, c) \<in> set (Counter xs)"
  shows "k \<in> set xs \<and> c = count_list xs k \<and> 0 < c"
proof -
  from assms have "map_of (Counter xs) k = Some c"
    by (simp add: Counter_distinct)
  then have "k \<in> set xs" "c = count_list xs k"
    by (auto simp: Counter_lookup split: if_splits)
  moreover from \<open>k \<in> set xs\<close> have "0 < count_list xs k"
    by (simp add: count_list_0_iff zero_less_iff_neq_zero)
  ultimately show ?thesis by simp
qed

lemma count_list_map_Mutation:
  "count_list (map Mutation df) k = length (filter (\<lambda>r. Mutation r = k) df)"
  by (induction df) simp_all

lemma sum_list_insort_key:
  fixes g :: "'a \<Rightarrow> 'b::comm_monoid_add"
  shows "sum_list (map g (insort_key f x xs)) = g x + sum_list (map g xs)"
  by (induction xs) (simp_all add: ac_simps)

lemma sum_list_sort_key:
  fixes g :: "'a \<Rightarrow> 'b::comm_monoid_add"
  shows "sum_list (map g (sort_key f xs)) = sum_list (map g xs)"
  by (induction xs) (simp_all add: sum_list_insort_key)

lemma frequencies_unsorted:
  assumes "df \<noteq> []"
  shows "calculate_mutation_frequencies df =
           sort_key (\<lambda>r. - int (Count r))
             (map (\<lambda>(k, c). \<lparr> label = k, Count = c,
                               Frequency = (real c / real (length df)) * 100 \<rparr>)
                  (Counter (map Mutation df)))"
  using assms by (simp add: calculate_mutation_frequencies_def Counter_sum)

lemma frequencies_entry:
  assumes "fr \<in> set (calculate_mutation_frequencies df)"
  shows "df \<noteq> [] \<and> (label fr, Count fr) \<in> set (Counter (map Mutation df)) \<and>
         Frequency fr = (real (Count fr) / real (length df)) * 100"
proof -
  from assms have ne: "df \<noteq> []"
    by (auto simp: calculate_mutation_frequencies_def)
  with assms show ?thesis
    by (auto simp: frequencies_unsorted)
qed

lemma frequencies_Count_sum:
  "sum_list (map Count (calculate_mutation_frequencies df)) = length df"
proof (cases "df = []")
  case True
  then show ?thesis by (simp add: calculate_mutation_frequencies_def)
next
  case False
  have "map Count (map (\<lambda>(k, c). \<lparr> label = k, Count = c,
            Frequency = (real c / real (length df)) * 100 \<rparr>) (Counter (map Mutation df)))
        = map snd (Counter (map Mutation df))"
    by (simp add: case_prod_beta)
  with False show ?thesis
    by (simp add: frequencies_unsorted sum_list_sort_key Counter_sum del: map_map)
qed

lemma frequencies_labels:
  "map label (map (\<lambda>(k, c). \<lparr> label = k, Count = c, Frequency = F c \<rparr>) m) = map fst m"
  by (simp add: case_prod_beta)

lemma sum_list_share:
  "sum_list (map (\<lambda>kc. real (snd kc) / n * 100) m) = real (sum_list (map snd m)) / n * 100"
  by (induction m) (simp_all add: add_divide_distrib distrib_right)

lemmas frequency_defs =
  calculate_mutation_frequencies_def Counter_def ex_table_def ex_row_def arrow_def Let_def

lemma ex_table_counts:
  "map (\<lambda>fr. (label fr, Count fr)) (calculate_mutation_frequencies ex_table) =
     [(''A'' @ arrow @ ''G'', 2), (''C'' @ arrow @ ''T'', 1), (''A'' @ arrow @ ''C'', 1)]"
  by (simp add: frequency_defs)

text \<open>
  C4. For a non-empty table, every entry of the result has percentage
  \<open>100 * Count / total\<close>, where the total is the sum of the counts over all labels, and
  the percentages of the result add up to \<open>100\<close> (exactly, in exact arithmetic); for
  the empty table the result is empty.
\<close>

theorem mutation_frequencies_percentages:
  "calculate_mutation_frequencies [] = [] \<and>
   (df \<noteq> [] \<longrightarrow>
      (\<forall>fr \<in> set (calculate_mutation_frequencies df).
         Frequency fr =
           100 * real (Count fr) / real (sum_list (map Count (calculate_mutation_frequencies df)))) \<and>
      sum_list (map Frequency (calculate_mutation_frequencies df)) = 100)"
proof -
  have e: "calculate_mutation_frequencies [] = []"
    by (simp add: calculate_mutation_frequencies_def)
  have p: "Frequency fr =
      100 * real (Count fr) / real (sum_list (map Count (calculate_mutation_frequencies df)))"
    if "fr \<in> set (calculate_mutation_frequencies df)" for fr
    using frequencies_entry [OF that] by (simp add: frequencies_Count_sum)
  have s: "sum_list (map Frequency (calculate_mutation_frequencies df)) = 100" if "df \<noteq> []"
  proof -
    let ?m = "Counter (map Mutation df)"
    let ?n = "real (length df)"
    have "sum_list (map Frequency (calculate_mutation_frequencies df)) =
          sum_list (map (\<lambda>kc. real (snd kc) / ?n * 100) ?m)"
      using that
      by (simp add: frequencies_unsorted sum_list_sort_key case_prod_beta comp_def)
    also have "\<dots> = real (sum_list (map snd ?m)) / ?n * 100"
      by (rule sum_list_share)
    also have "sum_list (map snd ?m) = length df"
      by (simp add: Counter_sum)
    finally show ?thesis using that by simp
  qed
  from e p s show ?thesis by blast
qed

theorem mutation_frequencies_percentages_witness:
  "ex_table \<noteq> [] \<and>
   sum_list (map Frequency (calculate_mutation_frequencies ex_table)) = 100 \<and>
   map Frequency (calculate_mutation_frequencies ex_table) = [50, 25, 25]"
proof -
  have ne: "ex_table \<noteq> []" by (simp add: ex_table_def)
  have "map Frequency (calculate_mutation_frequencies ex_table) = [50, 25, 25]"
    by (simp add: frequency_defs)
  with mutation_frequencies_percentages [of ex_table] ne show ?thesis by blast
qed

text \<open>
  C10. For every table, the counts of the result add up to the number of rows: the
  labels of the result are pairwise different and are exactly the mutation labels of the
  rows, the count of a label is the number of rows that carry it, and no count is \<open>0\<close>.
\<close>

theorem mutation_counts_partition_rows:
  "sum_list (map Count (calculate_mutation_frequencies df)) = length df \<and>
   distinct (map label (calculate_mutation_frequencies df)) \<and>
   label ` set (calculate_mutation_frequencies df) = Mutation ` set df \<and>
   (\<forall>fr \<in> set (calculate_mutation_frequencies df).
      0 < Count fr \<and> Count fr = length (filter (\<lambda>r. Mutation r = label fr) df))"
proof -
  have d: "distinct (map label (calculate_mutation_frequencies df))"
  proof (cases "df = []")
    case True
    then show ?thesis by (simp add: calculate_mutation_frequencies_def)
  next
    case False
    let ?g = "\<lambda>(k, c). \<lparr> label = k, Count = c, Frequency = (real c / real (length df)) * 100 \<rparr>"
    let ?m = "Counter (map Mutation df)"
    have "distinct (map label (map ?g ?m))"
      unfolding frequencies_labels by (rule Counter_distinct)
    then have "distinct (map ?g ?m)" "inj_on label (set (map ?g ?m))"
      by (simp_all only: distinct_map)
    then have "distinct (map label (sort_key (\<lambda>r. - int (Count r)) (map ?g ?m)))"
      by (simp only: distinct_map distinct_sort set_sort simp_thms)
    then show ?thesis by (simp only: frequencies_unsorted [OF False])
  qed
  have l: "label ` set (calculate_mutation_frequencies df) = Mutation ` set df"
  proof (cases "df = []")
    case True
    then show ?thesis by (simp add: calculate_mutation_frequencies_def)
  next
    case False
    have "label ` set (calculate_mutation_frequencies df) = fst ` set (Counter (map Mutation df))"
      using False by (force simp: frequencies_unsorted image_iff)
    then show ?thesis by (simp add: Counter_keys)
  qed
  have c: "0 < Count fr \<and> Count fr = length (filter (\<lambda>r. Mutation r = label fr) df)"
    if "fr \<in> set (calculate_mutation_frequencies df)" for fr
  proof -
    from frequencies_entry [OF that]
    have "(label fr, Count fr) \<in> set (Counter (map Mutation df))" by blast
    from Counter_entry [OF this]
    have "Count fr = count_list (map Mutation df) (label fr)" "0 < Count fr" by blast+
    then show ?thesis by (simp only: count_list_map_Mutation simp_thms)
  qed
  from frequencies_Count_sum d l c show ?thesis by blast
qed

theorem mutation_counts_partition_rows_witness:
  "sum_list (map Count (calculate_mutation_frequencies ex_table)) = 4 \<and>
   length ex_table = 4 \<and>
   map (\<lambda>fr. (label fr, Count fr)) (calculate_mutation_frequencies ex_table) =
     [(''A'' @ arrow @ ''G'', 2), (''C'' @ arrow @ ''T'', 1), (''A'' @ arrow @ ''C'', 1)]"
  using mutation_counts_partition_rows [of ex_table] ex_table_counts
  by (simp add: ex_table_def)

section \<open>Properties of the quality summarizer\<close>

lemma dropna_Nil [simp]: "dropna [] = []"
  by (simp add: dropna_def map_filter_simps)

lemma dropna_Cons [simp]:
  "dropna (x # xs) = (case x of None \<Rightarrow> dropna xs | Some y \<Rightarrow> y # dropna xs)"
  by (simp add: dropna_def map_filter_simps split: option.splits)

lemma dropna_sum:
  "sum_list (map real_of_int (dropna (map DP df))) =
     (\<Sum>r\<leftarrow>df. case DP r of None \<Rightarrow> 0 | Some d \<Rightarrow> real_of_int d)"
  by (induction df) (simp_all split: option.splits)

lemma dropna_length:
  "length (dropna (map DP df)) = length (filter (\<lambda>r. DP r \<noteq> None) df)"
  by (induction df) (simp_all split: option.splits)

lemma dropna_empty_iff: "dropna (map DP df) = [] \<longleftrightarrow> (\<forall>r \<in> set df. DP r = None)"
  by (induction df) (simp_all split: option.splits)

text \<open>
  C5. For a non-empty table, Mean Depth is the sum of the defined depths divided by
  the number of rows whose depth is defined (NaN when no depth is defined): rows with a
  missing depth are left out, not counted as \<open>0\<close>. In particular four rows with depths
  10, 20, missing, 30 give Mean Depth 20.
\<close>

theorem mean_depth_over_defined:
  "(df \<noteq> [] \<longrightarrow>
      map_of (ngs_quality_metrics df) ''Mean Depth'' =
        Some (MFloat (if \<forall>r \<in> set df. DP r = None then None
                      else Some ((\<Sum>r\<leftarrow>df. case DP r of None \<Rightarrow> 0 | Some d \<Rightarrow> real_of_int d) /
                                 real (length (filter (\<lambda>r. DP r \<noteq> None) df)))))) \<and>
   (DP r1 = Some 10 \<and> DP r2 = Some 20 \<and> DP r3 = None \<and> DP r4 = Some 30 \<longrightarrow>
      map_of (ngs_quality_metrics [r1, r2, r3, r4]) ''Mean Depth'' = Some (MFloat (Some 20)))"
proof -
  have a: "map_of (ngs_quality_metrics df) ''Mean Depth'' =
        Some (MFloat (if \<forall>r \<in> set df. DP r = None then None
                      else Some ((\<Sum>r\<leftarrow>df. case DP r of None \<Rightarrow> 0 | Some d \<Rightarrow> real_of_int d) /
                                 real (length (filter (\<lambda>r. DP r \<noteq> None) df)))))"
    if "df \<noteq> []"
    using that
    by (simp add: ngs_quality_metrics_def mean_def dropna_sum dropna_length dropna_empty_iff
        del: dropna_Cons)
  have b: "map_of (ngs_quality_metrics [r1, r2, r3, r4]) ''Mean Depth'' = Some (MFloat (Some 20))"
    if "DP r1 = Some 10 \<and> DP r2 = Some 20 \<and> DP r3 = None \<and> DP r4 = Some 30"
    using that by (simp add: ngs_quality_metrics_def mean_def)
  from a b show ?thesis by blast
qed

theorem mean_depth_over_defined_witness:
  "ex_quality_table \<noteq> [] \<and>
   map_of (ngs_quality_metrics ex_quality_table) ''Mean Depth'' = Some (MFloat (Some 20))"
  using mean_depth_over_defined [of ex_quality_table]
  by (simp add: ex_quality_table_def ex_row_def)

text \<open>
  C6. For a non-empty table, Q30 Variants is the number of rows whose quality score
  is defined and at least 30; a row with a lower or a missing score is not counted.
\<close>

theorem q30_counts_defined_ge_30:
  assumes "df \<noteq> []"
  shows "map_of (ngs_quality_metrics df) ''Q30 Variants'' =
           Some (MInt (card {i. i < length df \<and> (\<exists>q. QUAL (df ! i) = Some q \<and> 30 \<le> q)}))"
proof -
  have "qual_ge_30 r \<longleftrightarrow> (\<exists>q. QUAL r = Some q \<and> 30 \<le> q)" for r
    by (simp add: qual_ge_30_def split: option.splits)
  then have "length (filter qual_ge_30 df) =
      card {i. i < length df \<and> (\<exists>q. QUAL (df ! i) = Some q \<and> 30 \<le> q)}"
    by (simp add: length_filter_conv_card)
  with assms show ?thesis
    by (simp add: ngs_quality_metrics_def)
qed

theorem q30_counts_defined_ge_30_witness:
  "ex_quality_table \<noteq> [] \<and>
   map_of (ngs_quality_metrics ex_quality_table) ''Q30 Variants'' = Some (MInt 2)"
proof -
  have ne: "ex_quality_table \<noteq> []" by (simp add: ex_quality_table_def)
  have "card {i. i < length ex_quality_table \<and>
                 (\<exists>q. QUAL (ex_quality_table ! i) = Some q \<and> 30 \<le> q)} =
        length (filter (\<lambda>r. \<exists>q. QUAL r = Some q \<and> 30 \<le> q) ex_quality_table)"
    by (simp only: length_filter_conv_card)
  also have "\<dots> = 2"
    by (simp add: ex_quality_table_def ex_row_def)
  finally show ?thesis
    using q30_counts_defined_ge_30 [OF ne] ne by simp
qed

section \<open>Properties of the transition/transversion classifier\<close>

lemma transitions_transversions_disjoint: "set transitions \<inter> set transversions = {}"
  by (simp add: transitions_def transversions_def)

lemma count_ti_tv_eq:
  "count_ti_tv rs (ti, tv) =
     (ti + length (filter is_transition rs), tv + length (filter is_transversion rs))"
proof (induction rs arbitrary: ti tv)
  case Nil
  then show ?case by simp
next
  case (Cons r rs)
  have "\<not> (is_transition r \<and> is_transversion r)"
    using transitions_transversions_disjoint
    by (auto simp: is_transition_def is_transversion_def)
  then show ?case
    by (auto simp: Cons.IH Let_def is_transition_def is_transversion_def)
qed

lemma mutation_spectrum_counts:
  "mutation_spectrum truediv py_round df =
     (let ti = length (filter (\<lambda>r. TYPE' r = ''snp'' \<and> is_transition r) df);
          tv = length (filter (\<lambda>r. TYPE' r = ''snp'' \<and> is_transversion r) df)
      in \<lparr> Transitions = ti, Transversions = tv,
           Ti_Tv_Ratio = (if tv > 0 then Ratio (py_round (truediv ti tv) 2) else NA) \<rparr>)"
proof (cases "df = [] \<or> ''snp'' \<notin> set (map TYPE' df)")
  case True
  then have "filter (\<lambda>r. TYPE' r = ''snp'' \<and> P r) df = []" for P
    by (force simp: filter_empty_conv image_iff)
  with True show ?thesis
    by (simp add: mutation_spectrum_def)
next
  case False
  have "filter P (filter (\<lambda>r. TYPE' r = ''snp'') df) = filter (\<lambda>r. TYPE' r = ''snp'' \<and> P r) df" for P
    by (simp add: conj_commute)
  with False show ?thesis
    by (simp add: mutation_spectrum_def count_ti_tv_eq Let_def)
qed

lemmas spectrum_defs =
  mutation_spectrum_def transitions_def transversions_def ex_table_def ex_row_def Let_def

lemma ex_table_spectrum:
  "mutation_spectrum truediv py_round ex_table =
     \<lparr> Transitions = 3, Transversions = 1, Ti_Tv_Ratio = Ratio (py_round (truediv 3 1) 2) \<rparr>"
  by (simp add: spectrum_defs numeral_3_eq_3)




text \<open>
  C8. A row of type \<open>snp\<close> whose pair (reference, first alternate) is in neither pair
  table changes nothing: the result with the row is the result without it, and both
  counts are those of the other rows.
\<close>

theorem non_canonical_snp_not_counted:
  assumes "TYPE' r = ''snp''"
    and "(REF r, fst (split_comma (ALT r))) \<notin> set transitions \<union> set transversions"
  shows "mutation_spectrum truediv py_round (xs @ r # ys) =
           mutation_spectrum truediv py_round (xs @ ys) \<and>
         Transitions (mutation_spectrum truediv py_round (xs @ r # ys)) =
           length (filter (\<lambda>r. TYPE' r = ''snp'' \<and> is_transition r) (xs @ ys)) \<and>
         Transversions (mutation_spectrum truediv py_round (xs @ r # ys)) =
           length (filter (\<lambda>r. TYPE' r = ''snp'' \<and> is_transversion r) (xs @ ys))"
proof -
  from assms(2) have "\<not> is_transition r" "\<not> is_transversion r"
    by (simp_all add: is_transition_def is_transversion_def)
  then show ?thesis
    by (simp add: mutation_spectrum_counts Let_def)
qed

theorem non_canonical_snp_not_counted_witness:
  "(\<forall>truediv py_round.
      mutation_spectrum truediv py_round
        (ex_table @ [ex_row ''snp'' ''N'' ''G'', ex_row ''snp'' ''AT'' ''GC'']) =
      \<lparr> Transitions = 3, Transversions = 1,
        Ti_Tv_Ratio = Ratio (py_round (truediv 3 1) 2) \<rparr>) \<and>
   TYPE' (ex_row ''snp'' ''N'' ''G'') = ''snp'' \<and>
   (''N'', ''G'') \<notin> set transitions \<union> set transversions"
proof -
  let ?n = "ex_row ''snp'' ''N'' ''G''" and ?m = "ex_row ''snp'' ''AT'' ''GC''"
  have n: "TYPE' ?n = ''snp''"
    "(REF ?n, fst (split_comma (ALT ?n))) \<notin> set transitions \<union> set transversions"
    by (simp_all add: ex_row_def transitions_def transversions_def)
  have m: "TYPE' ?m = ''snp''"
    "(REF ?m, fst (split_comma (ALT ?m))) \<notin> set transitions \<union> set transversions"
    by (simp_all add: ex_row_def transitions_def transversions_def)
  have a: "mutation_spectrum truediv py_round (ex_table @ [?n, ?m]) =
      \<lparr> Transitions = 3, Transversions = 1,
        Ti_Tv_Ratio = Ratio (py_round (truediv 3 1) 2) \<rparr>"
    for truediv :: "nat \<Rightarrow> nat \<Rightarrow> 'x" and py_round
  proof -
    from non_canonical_snp_not_counted [OF n, of truediv py_round ex_table "[?m]"]
      non_canonical_snp_not_counted [OF m, of truediv py_round ex_table "[]"]
    have "mutation_spectrum truediv py_round (ex_table @ [?n, ?m]) =
        mutation_spectrum truediv py_round ex_table"
      by simp
    then show ?thesis by (simp only: ex_table_spectrum)
  qed
  have b: "(''N'', ''G'') \<notin> set transitions \<union> set transversions"
    by (simp add: transitions_def transversions_def)
  show ?thesis using n(1) b by (simp only: a simp_thms)
qed

end
